theory Spec2Isabelle
  imports Complex_Main
begin

section \<open>Caesar-shift search of \<^verbatim>\<open>this_decyphered.ipynb\<close>\<close>

text \<open>
  The notebook lower-cases a ciphertext and then runs a \<^verbatim>\<open>while\<close> loop: every pass
  builds a rotated copy of the alphabet from the counter \<^verbatim>\<open>shift\<close>, turns it into a
  translation table, rewrites the working text \<^verbatim>\<open>s\<close> with it, counts the tokens of the new
  text that the dictionary maps to a truthy value, and increments the counter. The loop
  ends when 25 or more tokens matched.

  Python strings are sequences of code points. A text is modelled as a \<^typ>\<open>string\<close>, whose
  characters are the code points below 256; on that range \<^verbatim>\<open>str.lower\<close> and
  \<^verbatim>\<open>str.isspace\<close> are written out in full. Python integers are \<^typ>\<open>int\<close>.
\<close>

subsection \<open>Python primitives used by the notebook\<close>

text \<open>\<^verbatim>\<open>str.lower\<close> on one code point below 256: the ASCII capitals and the Latin-1
  capitals (all of 192..222 but the multiplication sign 215) move up by 32.\<close>

definition lower_char :: "char \<Rightarrow> char" where
  "lower_char c =
     (let n = (of_char c :: nat)
      in if (65 \<le> n \<and> n \<le> 90) \<or> (192 \<le> n \<and> n \<le> 222 \<and> n \<noteq> 215)
         then char_of (n + 32) else c)"

definition lower :: "string \<Rightarrow> string" where
  "lower s = map lower_char s"

text \<open>\<^verbatim>\<open>str.isspace\<close> on one code point below 256.\<close>

definition isspace :: "char \<Rightarrow> bool" where
  "isspace c =
     (let n = (of_char c :: nat)
      in (9 \<le> n \<and> n \<le> 13) \<or> (28 \<le> n \<and> n \<le> 32) \<or> n = 133 \<or> n = 160)"

text \<open>The bound of a slice \<^verbatim>\<open>xs[i:]\<close> or \<^verbatim>\<open>xs[:i]\<close> on a sequence of length \<open>n\<close>: a negative
  bound counts from the end, and a bound outside the sequence is clamped to it.\<close>

definition slice_index :: "nat \<Rightarrow> int \<Rightarrow> nat" where
  "slice_index n i =
     (if i < 0 then (if int n + i < 0 then 0 else nat (int n + i))
      else (if int n < i then n else nat i))"

definition slice_from :: "'a list \<Rightarrow> int \<Rightarrow> 'a list" where
  "slice_from xs i = drop (slice_index (length xs) i) xs"

definition slice_upto :: "'a list \<Rightarrow> int \<Rightarrow> 'a list" where
  "slice_upto xs i = take (slice_index (length xs) i) xs"

text \<open>\<^verbatim>\<open>dict(pairs)\<close>: the pairs are stored from left to right, a later one replacing an
  earlier one with the same key.\<close>

definition py_dict :: "('k \<times> 'v) list \<Rightarrow> ('k \<rightharpoonup> 'v)" where
  "py_dict ps = fold (\<lambda>(k, v) m. m(k \<mapsto> v)) ps Map.empty"

text \<open>\<^verbatim>\<open>str.maketrans(d)\<close> for a dictionary from one-character strings to one-character
  strings: the table is keyed by the code point. \<^verbatim>\<open>str.translate(table)\<close> replaces every
  character whose code point is a key and keeps every other character.\<close>

definition maketrans :: "(char \<rightharpoonup> char) \<Rightarrow> (nat \<rightharpoonup> char)" where
  "maketrans d = (\<lambda>n. if n < 256 then d (char_of n) else None)"

definition translate :: "(nat \<rightharpoonup> char) \<Rightarrow> string \<Rightarrow> string" where
  "translate table s = map (\<lambda>c. case table (of_char c) of Some d \<Rightarrow> d | None \<Rightarrow> c) s"

text \<open>\<^verbatim>\<open>str.split(sep)\<close> for a one-character separator: the pieces between the
  separators, empty pieces included; the result is never empty.\<close>

fun split_sep :: "char \<Rightarrow> string \<Rightarrow> string list" where
  "split_sep sep [] = [[]]"
| "split_sep sep (c # cs) =
     (let r = split_sep sep cs
      in if c = sep then [] # r else (c # hd r) # tl r)"

text \<open>\<^verbatim>\<open>str.split()\<close> without an argument: the maximal runs of non-whitespace characters.
  The scan keeps the current run in \<open>acc\<close>, reversed.\<close>

fun split_ws_acc :: "string \<Rightarrow> string \<Rightarrow> string list" where
  "split_ws_acc acc [] = (if acc = [] then [] else [rev acc])"
| "split_ws_acc acc (c # cs) =
     (if isspace c
      then (if acc = [] then split_ws_acc [] cs else rev acc # split_ws_acc [] cs)
      else split_ws_acc (c # acc) cs)"

definition split_ws :: "string \<Rightarrow> string list" where
  "split_ws s = split_ws_acc [] s"

text \<open>The values \<^verbatim>\<open>json.load\<close> produces, and Python's truth value of each.\<close>

datatype json =
    JNull
  | JBool bool
  | JInt int
  | JFloat real
  | JNaN
  | JInfinity bool
  | JStr string
  | JArr "json list"
  | JObj "(string \<times> json) list"

fun truthy :: "json \<Rightarrow> bool" where
  "truthy JNull = False"
| "truthy (JBool b) = b"
| "truthy (JInt i) = (i \<noteq> 0)"
| "truthy (JFloat x) = (x \<noteq> 0)"
| "truthy JNaN = True"
| "truthy (JInfinity negative) = True"
| "truthy (JStr t) = (t \<noteq> [])"
| "truthy (JArr xs) = (xs \<noteq> [])"
| "truthy (JObj kvs) = (kvs \<noteq> [])"

type_synonym dictionary = "string \<rightharpoonup> json"

text \<open>\<^verbatim>\<open>d.get(key, default)\<close>.\<close>

definition dict_get :: "dictionary \<Rightarrow> string \<Rightarrow> json \<Rightarrow> json" where
  "dict_get d k dflt = (case d k of Some v \<Rightarrow> v | None \<Rightarrow> dflt)"

subsection \<open>The tokenizer\<close>

text \<open>
  \<^verbatim>\<open>
  def get_words(s):
      lines = s.split('\n')
      for line in lines:
          yield from line.split()
  \<close>
  The generator is consumed once, into a list, by the search loop.
\<close>

definition get_words :: "string \<Rightarrow> string list" where
  "get_words s = concat (map split_ws (split_sep (CHR 0x0A) s))"

subsection \<open>The search loop\<close>

text \<open>\<^verbatim>\<open>DIRECT = 'ABCDEFGHIJKLMNOPQRSTUVWXYZ'.lower()\<close>\<close>

definition DIRECT :: string where
  "DIRECT = lower ''ABCDEFGHIJKLMNOPQRSTUVWXYZ''"

text \<open>\<^verbatim>\<open>cypher = DIRECT[26-shift:]+DIRECT[:26-shift]\<close>\<close>

definition cypher :: "int \<Rightarrow> string" where
  "cypher shift = slice_from DIRECT (26 - shift) @ slice_upto DIRECT (26 - shift)"

text \<open>\<^verbatim>\<open>switch = dict(zip(DIRECT,cypher))\<close>\<close>

definition switch :: "int \<Rightarrow> (char \<rightharpoonup> char)" where
  "switch shift = py_dict (zip DIRECT (cypher shift))"

text \<open>The two lines \<^verbatim>\<open>translated = s.maketrans(switch)\<close> and
  \<^verbatim>\<open>s.translate(translated)\<close>: the substitution of one counter value applied to a text.\<close>

definition substitute :: "int \<Rightarrow> string \<Rightarrow> string" where
  "substitute shift s = translate (maketrans (switch shift)) s"

text \<open>The inner \<^verbatim>\<open>for\<close> loop: one more match for every word whose dictionary value is
  truthy.\<close>

definition count_word :: "dictionary \<Rightarrow> string \<Rightarrow> int \<Rightarrow> int" where
  "count_word dictionary word matches =
     (if truthy (dict_get dictionary word JNull) then matches + 1 else matches)"

definition count_matches :: "dictionary \<Rightarrow> string list \<Rightarrow> int" where
  "count_matches dictionary ws = fold (count_word dictionary) ws 0"

record search_state =
  st_s :: string
  st_shift :: int
  st_matches :: int

text \<open>One pass of the \<^verbatim>\<open>while\<close> body.\<close>

definition loop_body :: "dictionary \<Rightarrow> search_state \<Rightarrow> search_state" where
  "loop_body dictionary st =
     (let s' = substitute (st_shift st) (st_s st);
          matches = count_matches dictionary (get_words s')
      in \<lparr>st_s = s', st_shift = st_shift st + 1, st_matches = matches\<rparr>)"

text \<open>\<^verbatim>\<open>while matches < 25: ...\<close>. The loop has no bound, so it is a partial function:
  \<open>None\<close> is the run that never leaves the loop.\<close>

partial_function (option) search_loop :: "dictionary \<Rightarrow> search_state \<Rightarrow> search_state option" where
  "search_loop dictionary st =
     (if st_matches st < 25 then search_loop dictionary (loop_body dictionary st)
      else Some st)"

declare search_loop.simps [code]

text \<open>The state before the loop: \<^verbatim>\<open>s = s.lower()\<close>, \<^verbatim>\<open>shift = 0\<close>, \<^verbatim>\<open>matches = 0\<close>.\<close>

definition init_state :: "string \<Rightarrow> search_state" where
  "init_state s = \<lparr>st_s = lower s, st_shift = 0, st_matches = 0\<rparr>"

text \<open>The whole cell: the pair printed by \<^verbatim>\<open>print("Shift:", shift-1, "\n", s)\<close>.\<close>

definition decypher :: "dictionary \<Rightarrow> string \<Rightarrow> (int \<times> string) option" where
  "decypher dictionary s =
     (case search_loop dictionary (init_state s) of
        None \<Rightarrow> None
      | Some st \<Rightarrow> Some (st_shift st - 1, st_s st))"

text \<open>The state after \<open>n\<close> passes of the body, whether or not the loop would still run.\<close>

definition after_passes :: "dictionary \<Rightarrow> string \<Rightarrow> nat \<Rightarrow> search_state" where
  "after_passes dictionary s n = (loop_body dictionary ^^ n) (init_state s)"

subsection \<open>Notions used to state the properties\<close>

text \<open>What one substitution does to one character: the value the dictionary \<^verbatim>\<open>switch\<close> holds
  for it, or the character itself when it is not a key.\<close>

definition subst_char :: "int \<Rightarrow> char \<Rightarrow> char" where
  "subst_char a c = (case switch a c of Some d \<Rightarrow> d | None \<Rightarrow> c)"

text \<open>The rotation in the words of the specification: the last \<open>k\<close> letters of the alphabet
  are moved to the front (a rotation to the right by \<open>k\<close> positions).\<close>

definition rotate_right :: "nat \<Rightarrow> 'a list \<Rightarrow> 'a list" where
  "rotate_right k xs = drop (length xs - k) xs @ take (length xs - k) xs"

text \<open>The triangular numbers \<open>0 + 1 + \<dots> + (n - 1)\<close>.\<close>

definition tri :: "nat \<Rightarrow> nat" where
  "tri n = n * (n - 1) div 2"

text \<open>The loop started in \<open>st\<close> leaves with \<open>st'\<close>: some number of passes leads from \<open>st\<close> to
  \<open>st'\<close>, the guard holds before each of them and fails in \<open>st'\<close>.\<close>

definition reached :: "dictionary \<Rightarrow> search_state \<Rightarrow> search_state \<Rightarrow> bool" where
  "reached D st st' =
     (\<exists>n. st' = (loop_body D ^^ n) st \<and> \<not> st_matches st' < 25
        \<and> (\<forall>k<n. st_matches ((loop_body D ^^ k) st) < 25))"

section \<open>Auxiliary facts\<close>

subsection \<open>The alphabet and the substitution table\<close>

lemma DIRECT_eq: "DIRECT = ''abcdefghijklmnopqrstuvwxyz''"
  by code_simp

lemma length_DIRECT: "length DIRECT = 26"
  by (simp add: DIRECT_eq)

lemma distinct_DIRECT: "distinct DIRECT"
  by (simp add: DIRECT_eq)

lemma py_dict_fold: "fold (\<lambda>(k, v) m. m(k \<mapsto> v)) ps m = m ++ map_of (rev ps)"
  by (induction ps arbitrary: m) (auto simp: map_add_upd_left)

lemma map_of_rev_distinct: "distinct (map fst ps) \<Longrightarrow> map_of (rev ps) = map_of ps"
proof (induction ps)
  case Nil
  then show ?case by simp
next
  case (Cons p ps)
  obtain k v where p: "p = (k, v)" by (cases p)
  from Cons.prems p have notin: "k \<notin> fst ` set ps" and d: "distinct (map fst ps)"
    by auto
  from notin have none: "map_of ps k = None"
    by (simp add: map_of_eq_None_iff)
  show ?case
  proof
    fix x
    show "map_of (rev (p # ps)) x = map_of (p # ps) x"
      using Cons.IH [OF d] none p by (auto simp: map_add_def split: option.splits)
  qed
qed

lemma py_dict_map_of: "distinct (map fst ps) \<Longrightarrow> py_dict ps = map_of ps"
  by (simp add: py_dict_def py_dict_fold map_of_rev_distinct)

lemma length_cypher: "length (cypher a) = 26"
  by (simp add: cypher_def slice_from_def slice_upto_def length_DIRECT)

lemma switch_map_of: "switch a = map_of (zip DIRECT (cypher a))"
  by (simp add: switch_def py_dict_map_of length_cypher length_DIRECT distinct_DIRECT)

lemma substitute_map: "substitute a s = map (subst_char a) s"
  by (simp add: substitute_def translate_def maketrans_def subst_char_def)

lemma slice_index_26:
  "slice_index 26 (26 - a) =
     (if a < 0 \<or> 53 \<le> a then (if a < 0 then 26 else 0)
      else if a \<le> 26 then nat (26 - a) else nat (52 - a))"
  by (simp add: slice_index_def)

lemma cypher_rotate_right:
  assumes "0 \<le> a" "a \<le> 52"
  shows "cypher a = rotate_right (nat (a mod 26)) DIRECT"
proof -
  consider "a < 26" | "a = 26" | "26 < a" "a < 52" | "a = 52"
    using assms by linarith
  then show ?thesis
  proof cases
    case 1
    with assms have m: "a mod 26 = a" by simp
    from 1 assms have "26 - nat a = nat (26 - a)" by linarith
    with 1 assms m show ?thesis
      by (simp add: cypher_def slice_from_def slice_upto_def rotate_right_def length_DIRECT
          slice_index_26)
  next
    case 2
    then show ?thesis
      by (simp add: cypher_def slice_from_def slice_upto_def rotate_right_def length_DIRECT
          slice_index_def)
  next
    case 3
    then have m: "a mod 26 = a - 26" by presburger
    from 3 have "26 - nat (a - 26) = nat (52 - a)" by linarith
    with 3 m show ?thesis
      by (simp add: cypher_def slice_from_def slice_upto_def rotate_right_def length_DIRECT
          slice_index_26)
  next
    case 4
    then show ?thesis
      by (simp add: cypher_def slice_from_def slice_upto_def rotate_right_def length_DIRECT
          slice_index_def)
  qed
qed

lemma cypher_clamped:
  assumes "a < 0 \<or> 53 \<le> a"
  shows "cypher a = DIRECT"
  using assms
  by (auto simp: cypher_def slice_from_def slice_upto_def length_DIRECT slice_index_26)

lemma rotate_right_nth:
  assumes "k \<le> length xs" "i < length xs"
  shows "rotate_right k xs ! i = xs ! ((i + length xs - k) mod length xs)"
proof (cases "i < k")
  case True
  with assms have "(i + length xs - k) mod length xs = length xs - k + i" by simp
  with True assms show ?thesis
    by (simp add: rotate_right_def nth_append)
next
  case False
  with assms have "i + length xs - k = (i - k) + length xs" by simp
  then have "(i + length xs - k) mod length xs = (i - k) mod length xs" by simp
  also from False assms have "\<dots> = i - k" by simp
  finally show ?thesis using False assms
    by (simp add: rotate_right_def nth_append)
qed

lemma back_index:
  assumes "0 \<le> a" "i < 26"
  shows "(i + 26 - nat (a mod 26)) mod 26 = nat ((int i - a) mod 26)"
proof -
  have "int ((i + 26 - nat (a mod 26)) mod 26) = (int i + 26 - a mod 26) mod 26"
    using assms by (simp add: zmod_int of_nat_diff)
  also have "\<dots> = (int i - a) mod 26"
    by (metis add_diff_eq diff_add_eq mod_add_self2 mod_diff_right_eq)
  finally show ?thesis by linarith
qed

lemma cypher_nth:
  assumes "0 \<le> a" "a \<le> 52" "i < 26"
  shows "cypher a ! i = DIRECT ! nat ((int i - a) mod 26)"
proof -
  have "nat (a mod 26) \<le> length DIRECT"
    using assms by (simp add: length_DIRECT nat_le_iff) 
  then show ?thesis
    using assms
    by (simp add: cypher_rotate_right rotate_right_nth length_DIRECT back_index)
qed

lemma subst_char_letter:
  assumes "0 \<le> a" "a \<le> 52" "i < 26"
  shows "subst_char a (DIRECT ! i) = DIRECT ! nat ((int i - a) mod 26)"
proof -
  have "switch a (DIRECT ! i) = Some (cypher a ! i)"
    unfolding switch_map_of using assms
    by (intro map_of_zip_nth) (simp_all add: length_DIRECT length_cypher distinct_DIRECT)
  then show ?thesis
    using assms by (simp add: subst_char_def cypher_nth)
qed

lemma subst_char_other:
  assumes "c \<notin> set DIRECT"
  shows "subst_char a c = c"
proof -
  have "switch a c = None"
    unfolding switch_map_of using assms
    by (simp add: map_of_zip_is_None length_DIRECT length_cypher)
  then show ?thesis by (simp add: subst_char_def)
qed

lemma subst_char_clamped:
  assumes "a < 0 \<or> 53 \<le> a"
  shows "subst_char a c = c"
proof (cases "c \<in> set DIRECT")
  case True
  then obtain i where i: "i < length DIRECT" "c = DIRECT ! i"
    by (auto simp: in_set_conv_nth)
  have "switch a (DIRECT ! i) = Some (DIRECT ! i)"
    unfolding switch_map_of cypher_clamped [OF assms] using i
    by (intro map_of_zip_nth) (simp_all add: distinct_DIRECT)
  with i show ?thesis by (simp add: subst_char_def)
next
  case False
  then show ?thesis by (rule subst_char_other)
qed

lemma subst_char_in_DIRECT:
  assumes "0 \<le> a" "a \<le> 52" "c \<in> set DIRECT"
  shows "subst_char a c \<in> set DIRECT"
proof -
  from assms obtain i where i: "i < 26" "c = DIRECT ! i"
    by (auto simp: in_set_conv_nth length_DIRECT)
  have "nat ((int i - a) mod 26) < length DIRECT"
    by (simp add: length_DIRECT nat_less_iff)
  with i assms show ?thesis
    by (simp add: subst_char_letter)
qed

lemma subst_char_compose:
  assumes "0 \<le> a" "a \<le> 52" "0 \<le> b" "b \<le> 52"
  shows "subst_char b (subst_char a c) = subst_char ((a + b) mod 26) c"
proof (cases "c \<in> set DIRECT")
  case True
  then obtain i where i: "i < 26" "c = DIRECT ! i"
    by (auto simp: in_set_conv_nth length_DIRECT)
  define j where "j = nat ((int i - a) mod 26)"
  have j: "j < 26" "int j = (int i - a) mod 26"
    by (simp_all add: j_def nat_less_iff)
  have ab: "0 \<le> (a + b) mod 26" "(a + b) mod 26 \<le> 52"
    by simp_all
  have "(int j - b) mod 26 = (int i - a - b) mod 26"
    by (simp add: j mod_diff_left_eq)
  also have "\<dots> = (int i - (a + b) mod 26) mod 26"
    by (simp add: mod_diff_right_eq diff_diff_eq)
  finally have "nat ((int j - b) mod 26) = nat ((int i - (a + b) mod 26) mod 26)"
    by simp
  moreover have "subst_char b (subst_char a c) = DIRECT ! nat ((int j - b) mod 26)"
    using i assms j(1) by (simp add: subst_char_letter j_def [symmetric])
  moreover have "subst_char ((a + b) mod 26) c = DIRECT ! nat ((int i - (a + b) mod 26) mod 26)"
    using i ab by (simp add: subst_char_letter)
  ultimately show ?thesis by simp
next
  case False
  then show ?thesis by (simp add: subst_char_other)
qed

subsection \<open>The working text after a number of passes\<close>

lemma tri_Suc: "tri (Suc n) = tri n + n"
proof -
  have "even (n * (n - 1))" by (cases n) simp_all
  then obtain m where m: "n * (n - 1) = 2 * m" by (elim evenE)
  have "Suc n * n = n * (n - 1) + 2 * n" by (cases n) simp_all
  with m show ?thesis by (simp add: tri_def)
qed

lemma loop_body_simps:
  "st_s (loop_body D st) = substitute (st_shift st) (st_s st)"
  "st_shift (loop_body D st) = st_shift st + 1"
  "st_matches (loop_body D st) = count_matches D (get_words (substitute (st_shift st) (st_s st)))"
  by (simp_all add: loop_body_def Let_def)

lemma after_passes_0: "after_passes D s 0 = init_state s"
  by (simp add: after_passes_def)

lemma after_passes_Suc: "after_passes D s (Suc n) = loop_body D (after_passes D s n)"
  by (simp add: after_passes_def)

lemma shift_after_passes: "st_shift (after_passes D s n) = int n"
  by (induction n) (simp_all add: after_passes_0 after_passes_Suc loop_body_simps init_state_def)

lemma matches_after_passes:
  "st_matches (after_passes D s (Suc n)) = count_matches D (get_words (st_s (after_passes D s (Suc n))))"
  by (simp add: after_passes_Suc loop_body_simps)

lemma subst_char_0: "subst_char 0 c = c"
proof (cases "c \<in> set DIRECT")
  case True
  then obtain i where i: "i < 26" "c = DIRECT ! i"
    by (auto simp: in_set_conv_nth length_DIRECT)
  then show ?thesis by (simp add: subst_char_letter)
next
  case False
  then show ?thesis by (rule subst_char_other)
qed

lemma substitute_0: "substitute 0 s = s"
  by (simp add: substitute_map subst_char_0 map_idI)

lemma substitute_clamped: "a < 0 \<or> 53 \<le> a \<Longrightarrow> substitute a s = s"
  by (simp add: substitute_map subst_char_clamped map_idI)

lemma substitute_compose:
  assumes "0 \<le> a" "a \<le> 52" "0 \<le> b" "b \<le> 52"
  shows "substitute b (substitute a s) = substitute ((a + b) mod 26) s"
  using assms by (simp add: substitute_map subst_char_compose)

lemma text_after_passes:
  assumes "n \<le> 53"
  shows "st_s (after_passes D s n) = substitute (int (tri n mod 26)) (lower s)"
  using assms
proof (induction n)
  case 0
  show ?case by (simp add: after_passes_0 init_state_def tri_def substitute_0)
next
  case (Suc n)
  then have n: "n \<le> 52" by simp
  have t: "0 \<le> int (tri n mod 26)" "int (tri n mod 26) \<le> 52"
    by simp_all
  have "(int (tri n mod 26) + int n) mod 26 = int (tri (Suc n) mod 26)"
    by (simp add: tri_Suc zmod_int mod_add_left_eq)
  with Suc.IH n t show ?case
    by (simp add: after_passes_Suc loop_body_simps shift_after_passes substitute_compose)
qed

lemma text_after_53:
  assumes "53 \<le> n"
  shows "st_s (after_passes D s n) = lower s"
  using assms
proof (induction n rule: dec_induct)
  case base
  have "tri 53 mod 26 = 0" by (simp add: tri_def)
  then show ?case by (simp add: text_after_passes substitute_0)
next
  case (step n)
  then show ?case
    by (simp add: after_passes_Suc loop_body_simps shift_after_passes substitute_clamped)
qed

subsection \<open>The loop as a partial function\<close>

lemma reached_now: "\<not> st_matches st < 25 \<Longrightarrow> reached D st st"
  unfolding reached_def by (intro exI [of _ 0]) simp

lemma reached_later:
  assumes "st_matches st < 25" "reached D (loop_body D st) st'"
  shows "reached D st st'"
proof -
  from assms(2) obtain n where n: "st' = (loop_body D ^^ n) (loop_body D st)"
     "\<not> st_matches st' < 25"
     "\<forall>k<n. st_matches ((loop_body D ^^ k) (loop_body D st)) < 25"
    unfolding reached_def by blast
  have "st_matches ((loop_body D ^^ k) st) < 25" if "k < Suc n" for k
    using that assms(1) n(3) by (cases k) (simp_all add: funpow_swap1)
  with n(1,2) show ?thesis
    unfolding reached_def by (intro exI [of _ "Suc n"]) (simp add: funpow_swap1)
qed

lemma search_loop_sound:
  assumes "search_loop D st = Some st'"
  shows "reached D st st'"
proof (rule search_loop.raw_induct [where P = reached, OF _ assms])
  fix f :: "dictionary \<Rightarrow> search_state \<Rightarrow> search_state option" and D st st'
  assume IH: "\<And>D st y. f D st = Some y \<Longrightarrow> reached D st y"
    and eq: "(if st_matches st < 25 then f D (loop_body D st) else Some st) = Some st'"
  show "reached D st st'"
  proof (cases "st_matches st < 25")
    case True
    with eq have "f D (loop_body D st) = Some st'" by simp
    then have "reached D (loop_body D st) st'" by (rule IH)
    with True show ?thesis by (rule reached_later)
  next
    case False
    with eq have "st' = st" by simp
    with False show ?thesis by (simp add: reached_now)
  qed
qed

lemma search_loop_complete:
  assumes "\<forall>k<n. st_matches ((loop_body D ^^ k) st) < 25"
    and "\<not> st_matches ((loop_body D ^^ n) st) < 25"
  shows "search_loop D st = Some ((loop_body D ^^ n) st)"
  using assms
proof (induction n arbitrary: st)
  case 0
  then show ?case by (simp add: search_loop.simps)
next
  case (Suc n)
  from Suc.prems(1) have now: "st_matches st < 25" by (auto dest: spec [of _ 0])
  have "\<forall>k<n. st_matches ((loop_body D ^^ k) (loop_body D st)) < 25"
  proof (intro allI impI)
    fix k assume "k < n"
    then have "Suc k < Suc n" by simp
    with Suc.prems(1) have "st_matches ((loop_body D ^^ Suc k) st) < 25" by blast
    then show "st_matches ((loop_body D ^^ k) (loop_body D st)) < 25"
      by (simp add: funpow_swap1)
  qed
  moreover from Suc.prems(2) have "\<not> st_matches ((loop_body D ^^ n) (loop_body D st)) < 25"
    by (simp add: funpow_swap1)
  ultimately have "search_loop D (loop_body D st) = Some ((loop_body D ^^ n) (loop_body D st))"
    by (rule Suc.IH)
  with now show ?case
    by (subst search_loop.simps) (simp add: funpow_swap1)
qed

lemma search_loop_diverges:
  assumes "\<forall>n. st_matches ((loop_body D ^^ n) st) < 25"
  shows "search_loop D st = None"
proof (cases "search_loop D st")
  case None
  then show ?thesis .
next
  case (Some st')
  from search_loop_sound [OF Some] assms show ?thesis by (auto simp: reached_def)
qed

subsection \<open>Tokens\<close>

lemma split_sep_nonempty: "split_sep sep s \<noteq> []"
  by (induction s) (simp_all add: Let_def)

lemma split_sep_append:
  "split_sep sep (u @ sep # v) = split_sep sep u @ split_sep sep v"
proof (induction u)
  case Nil
  show ?case by simp
next
  case (Cons c u)
  have ne: "split_sep sep u \<noteq> []" by (rule split_sep_nonempty)
  show ?case
  proof (cases "c = sep")
    case True
    with Cons.IH show ?thesis by simp
  next
    case False
    with Cons.IH ne show ?thesis by (simp add: Let_def)
  qed
qed

lemma split_ws_acc_no_empty: "[] \<notin> set (split_ws_acc acc s)"
  by (induction s arbitrary: acc) auto

lemma split_ws_acc_space:
  assumes "isspace c"
  shows "split_ws_acc acc (u @ c # v) = split_ws_acc acc u @ split_ws_acc [] v"
  using assms by (induction u arbitrary: acc) auto

lemma concat_split_ws_acc:
  "concat (split_ws_acc acc s) = rev acc @ filter (\<lambda>c. \<not> isspace c) s"
  by (induction s arbitrary: acc) auto

lemma isspace_newline: "isspace (CHR 0x0A)"
  by (simp add: isspace_def)

lemma isspace_blank: "isspace (CHR '' '')"
  by (simp add: isspace_def)

lemma lines_then_words:
  "split_ws_acc acc (hd (split_sep (CHR 0x0A) s))
     @ concat (map split_ws (tl (split_sep (CHR 0x0A) s))) = split_ws_acc acc s"
proof (induction s arbitrary: acc)
  case Nil
  show ?case by simp
next
  case (Cons c s)
  have ne: "split_sep (CHR 0x0A) s \<noteq> []" by (rule split_sep_nonempty)
  show ?case
  proof (cases "c = CHR 0x0A")
    case True
    from ne have "concat (map split_ws (split_sep (CHR 0x0A) s))
        = split_ws_acc [] (hd (split_sep (CHR 0x0A) s))
            @ concat (map split_ws (tl (split_sep (CHR 0x0A) s)))"
      by (cases "split_sep (CHR 0x0A) s") (simp_all add: split_ws_def)
    also have "\<dots> = split_ws_acc [] s" by (rule Cons.IH)
    finally show ?thesis using True isspace_newline by simp
  next
    case False
    then show ?thesis
      using Cons.IH [of "[]"] Cons.IH [of "c # acc"] by (simp add: Let_def)
  qed
qed

lemma get_words_split_ws: "get_words s = split_ws s"
proof -
  have ne: "split_sep (CHR 0x0A) s \<noteq> []" by (rule split_sep_nonempty)
  then have "get_words s = split_ws_acc [] (hd (split_sep (CHR 0x0A) s))
            @ concat (map split_ws (tl (split_sep (CHR 0x0A) s)))"
    unfolding get_words_def by (cases "split_sep (CHR 0x0A) s") (simp_all add: split_ws_def)
  then show ?thesis by (simp add: lines_then_words split_ws_def)
qed

lemma get_words_space:
  "isspace c \<Longrightarrow> get_words (u @ c # v) = get_words u @ get_words v"
  by (simp add: get_words_split_ws split_ws_def split_ws_acc_space)

lemma get_words_run:
  "isspace c \<Longrightarrow> get_words (u @ replicate (Suc n) c @ v) = get_words u @ get_words v"
proof (induction n arbitrary: u)
  case 0
  then show ?case by (simp add: get_words_space)
next
  case (Suc n)
  have "u @ replicate (Suc (Suc n)) c @ v = (u @ [c]) @ replicate (Suc n) c @ v" by simp
  also have "get_words \<dots> = get_words (u @ [c]) @ get_words v"
    using Suc by blast
  also have "get_words (u @ [c]) = get_words u @ get_words []"
    using Suc.prems by (rule get_words_space)
  finally show ?case by (simp add: get_words_split_ws split_ws_def)
qed

lemma get_words_example: "get_words [CHR ''a'', CHR '' '', CHR ''b'', CHR 0x0A, CHR ''c''] = [''a'', ''b'', ''c'']"
  by (simp add: get_words_def split_ws_def isspace_def Let_def)

lemma get_words_Nil: "get_words [] = []"
  by (simp add: get_words_def split_ws_def)

subsection \<open>Counting matches\<close>

lemma count_fold:
  "fold (count_word D) ws m = m + int (length (filter (\<lambda>w. truthy (dict_get D w JNull)) ws))"
  by (induction ws arbitrary: m) (simp_all add: count_word_def)

lemma count_matches_filter:
  "count_matches D ws = int (length (filter (\<lambda>w. truthy (dict_get D w JNull)) ws))"
  by (simp add: count_matches_def count_fold)

lemma count_matches_le: "count_matches D ws \<le> int (length ws)"
  by (simp add: count_matches_filter)

lemma count_matches_replicate:
  "count_matches D (replicate n w) = (if truthy (dict_get D w JNull) then int n else 0)"
  by (simp add: count_matches_filter)

lemma length_le_concat: "[] \<notin> set xss \<Longrightarrow> length xss \<le> length (concat xss)"
proof (induction xss)
  case Nil
  show ?case by simp
next
  case (Cons xs xss)
  then have "xs \<noteq> []" "length xss \<le> length (concat xss)" by auto
  then show ?case by (cases xs) simp_all
qed

lemma length_get_words_le: "length (get_words s) \<le> length s"
proof -
  have "[] \<notin> set (get_words s)"
    by (simp add: get_words_split_ws split_ws_def split_ws_acc_no_empty)
  then have "length (get_words s) \<le> length (concat (get_words s))"
    by (rule length_le_concat)
  also have "\<dots> = length (filter (\<lambda>c. \<not> isspace c) s)"
    by (simp add: get_words_split_ws split_ws_def concat_split_ws_acc)
  also have "\<dots> \<le> length s" by (rule length_filter_le)
  finally show ?thesis .
qed

lemma letters_not_space: "c \<in> set DIRECT \<Longrightarrow> \<not> isspace c"
  by (auto simp: DIRECT_eq isspace_def)

lemma subst_char_in_DIRECT_iff: "subst_char a c \<in> set DIRECT \<longleftrightarrow> c \<in> set DIRECT"
proof (cases "a < 0 \<or> 53 \<le> a")
  case True
  then show ?thesis by (simp add: subst_char_clamped)
next
  case False
  then have a: "0 \<le> a" "a \<le> 52" by simp_all
  show ?thesis
  proof (cases "c \<in> set DIRECT")
    case True
    with a show ?thesis by (simp add: subst_char_in_DIRECT)
  next
    case False
    then show ?thesis by (simp add: subst_char_other)
  qed
qed

lemma isspace_subst_char: "isspace (subst_char a c) = isspace c"
proof (cases "c \<in> set DIRECT")
  case True
  then have "subst_char a c \<in> set DIRECT" by (simp add: subst_char_in_DIRECT_iff)
  with True show ?thesis by (simp add: letters_not_space)
next
  case False
  then show ?thesis by (simp add: subst_char_other)
qed

lemma split_ws_acc_map:
  assumes "\<And>c. isspace (f c) = isspace c"
  shows "split_ws_acc (map f acc) (map f s) = map (map f) (split_ws_acc acc s)"
proof (induction s arbitrary: acc)
  case Nil
  show ?case by (simp add: rev_map)
next
  case (Cons c s)
  from Cons [of "[]"] Cons [of "c # acc"] show ?case
    by (simp add: assms rev_map)
qed

lemma get_words_substitute:
  "get_words (substitute a s) = map (substitute a) (get_words s)"
proof -
  have "split_ws_acc (map (subst_char a) []) (map (subst_char a) s)
          = map (map (subst_char a)) (split_ws_acc [] s)"
    by (rule split_ws_acc_map) (rule isspace_subst_char)
  then show ?thesis
    by (simp add: get_words_split_ws split_ws_def substitute_map [abs_def])
qed

lemma split_ws_acc_word:
  assumes "\<forall>c\<in>set w. \<not> isspace c"
  shows "split_ws_acc acc w = (if acc = [] \<and> w = [] then [] else [rev acc @ w])"
  using assms by (induction w arbitrary: acc) auto

lemma get_words_repeat:
  assumes "w \<noteq> []" "\<forall>c\<in>set w. \<not> isspace c"
  shows "get_words (concat (replicate n (w @ '' ''))) = replicate n w"
proof (induction n)
  case 0
  show ?case by (simp add: get_words_Nil)
next
  case (Suc n)
  have "concat (replicate (Suc n) (w @ '' '')) = w @ CHR '' '' # concat (replicate n (w @ '' ''))"
    by simp
  then have "get_words (concat (replicate (Suc n) (w @ '' '')))
      = get_words w @ get_words (concat (replicate n (w @ '' '')))"
    using get_words_space [OF isspace_blank] by simp
  moreover have "get_words w = [w]"
    using assms by (simp add: get_words_split_ws split_ws_def split_ws_acc_word)
  ultimately show ?case using Suc by simp
qed

lemma lower_repeat: "lower (concat (replicate n w)) = concat (replicate n (lower w))"
  by (simp add: lower_def map_concat)

lemma substitute_repeat:
  "substitute a (concat (replicate n w)) = concat (replicate n (substitute a w))"
  by (simp add: substitute_map map_concat)

lemma length_text_after: "length (st_s (after_passes D s n)) = length s"
  by (induction n)
    (simp_all add: after_passes_0 after_passes_Suc loop_body_simps init_state_def lower_def
      substitute_map)

lemma matches_after_0: "st_matches (after_passes D s 0) = 0"
  by (simp add: after_passes_0 init_state_def)

lemma matches_after_le: "st_matches (after_passes D s n) \<le> int (length s)"
proof (cases n)
  case 0
  then show ?thesis by (simp add: matches_after_0)
next
  case (Suc m)
  have "st_matches (after_passes D s (Suc m))
      \<le> int (length (get_words (st_s (after_passes D s (Suc m)))))"
    unfolding matches_after_passes by (rule count_matches_le)
  also have "\<dots> \<le> int (length (st_s (after_passes D s (Suc m))))"
    using length_get_words_le by simp
  finally show ?thesis using Suc by (simp add: length_text_after)
qed

lemma decypher_None:
  assumes "\<forall>n. st_matches (after_passes D s n) < 25"
  shows "decypher D s = None"
proof -
  from assms have "search_loop D (init_state s) = None"
    unfolding after_passes_def by (rule search_loop_diverges)
  then show ?thesis by (simp add: decypher_def)
qed

lemma decypher_Some:
  assumes "\<forall>k<n. st_matches (after_passes D s k) < 25"
    and "\<not> st_matches (after_passes D s n) < 25"
  shows "decypher D s = Some (int n - 1, st_s (after_passes D s n))"
proof -
  from assms have "search_loop D (init_state s) = Some (after_passes D s n)"
    unfolding after_passes_def by (rule search_loop_complete)
  then show ?thesis by (simp add: decypher_def shift_after_passes)
qed

lemma text_is_rotation:
  "\<exists>k. st_s (after_passes D s n) = substitute (int (tri k mod 26)) (lower s)"
proof (cases "n \<le> 53")
  case True
  then show ?thesis by (auto simp: text_after_passes)
next
  case False
  then have "st_s (after_passes D s n) = lower s" by (simp add: text_after_53)
  also have "\<dots> = substitute (int (tri 0 mod 26)) (lower s)"
    by (simp add: tri_def substitute_0)
  finally show ?thesis by blast
qed

subsection \<open>Evaluating a substitution on a literal\<close>

lemma substitute_eval:
  "substitute a s = map (\<lambda>c. case map_of (zip DIRECT (cypher a)) c of Some d \<Rightarrow> d | None \<Rightarrow> c) s"
  by (simp add: substitute_map subst_char_def [abs_def] switch_map_of)

lemmas cypher_eval = cypher_def slice_from_def slice_upto_def slice_index_def DIRECT_eq

subsection \<open>Runs on concrete texts\<close>

text \<open>A text made of 25 copies of one token, each followed by a blank, has 25 equal tokens
  after every pass, so a pass counts either 25 matches or none.\<close>

lemma lower_blank: "lower (w @ '' '') = lower w @ '' ''"
  by (simp add: lower_def lower_char_def)

lemma substitute_blank: "substitute a (w @ '' '') = substitute a w @ '' ''"
proof -
  have "CHR '' '' \<notin> set DIRECT" by (simp add: DIRECT_eq)
  then show ?thesis by (simp add: substitute_map subst_char_other)
qed

lemma matches_repeated:
  assumes "get_words (lower s) = replicate m lw" "n \<le> 52"
  shows "st_matches (after_passes D s (Suc n))
    = (if truthy (dict_get D (substitute (int (tri (Suc n) mod 26)) lw) JNull) then int m else 0)"
proof -
  from assms(2) have "Suc n \<le> 53" by simp
  then have "st_s (after_passes D s (Suc n)) = substitute (int (tri (Suc n) mod 26)) (lower s)"
    by (rule text_after_passes)
  then show ?thesis
    unfolding matches_after_passes
    by (simp add: get_words_substitute assms(1) count_matches_replicate)
qed

lemma run_on_repeated_token:
  assumes lw: "lower w = lw" "lw \<noteq> []" "\<forall>c\<in>set lw. \<not> isspace c"
    and n: "n \<le> 52"
    and before: "\<forall>k<n. \<not> truthy (dict_get D (substitute (int (tri (Suc k) mod 26)) lw) JNull)"
    and hit: "truthy (dict_get D (substitute (int (tri (Suc n) mod 26)) lw) JNull)"
  shows "decypher D (concat (replicate 25 (w @ '' '')))
    = Some (int n, concat (replicate 25 (substitute (int (tri (Suc n) mod 26)) lw @ '' '')))"
proof -
  define s where "s = concat (replicate 25 (w @ '' ''))"
  have low: "lower s = concat (replicate 25 (lw @ '' ''))"
    by (simp add: s_def lower_repeat lower_blank lw(1))
  then have words: "get_words (lower s) = replicate 25 lw"
    using lw(2,3) by (simp add: get_words_repeat)
  have early: "st_matches (after_passes D s k) < 25" if "k < Suc n" for k
  proof (cases k)
    case 0
    then show ?thesis by (simp add: matches_after_0)
  next
    case (Suc j)
    with that n have j: "j < n" "j \<le> 52" by simp_all
    with before have "\<not> truthy (dict_get D (substitute (int (tri (Suc j) mod 26)) lw) JNull)"
      by blast
    with matches_repeated [OF words j(2), of D] Suc show ?thesis by simp
  qed
  have last: "\<not> st_matches (after_passes D s (Suc n)) < 25"
    using matches_repeated [OF words n, of D] hit by simp
  from early last have "decypher D s = Some (int (Suc n) - 1, st_s (after_passes D s (Suc n)))"
    by (intro decypher_Some) blast+
  moreover from n have "st_s (after_passes D s (Suc n))
      = substitute (int (tri (Suc n) mod 26)) (lower s)"
    by (intro text_after_passes) simp
  ultimately show ?thesis
    by (simp add: s_def [symmetric] low substitute_repeat substitute_blank)
qed

lemma short_text_never_ends:
  assumes "length s < 25"
  shows "decypher D s = None"
proof (rule decypher_None, rule allI)
  fix n
  have "st_matches (after_passes D s n) \<le> int (length s)" by (rule matches_after_le)
  with assms show "st_matches (after_passes D s n) < 25" by simp
qed

lemma empty_dictionary_never_ends: "decypher Map.empty s = None"
proof (rule decypher_None, rule allI)
  fix n
  show "st_matches (after_passes Map.empty s n) < 25"
  proof (cases n)
    case 0
    then show ?thesis by (simp add: matches_after_0)
  next
    case (Suc m)
    then show ?thesis
      by (simp add: matches_after_passes count_matches_filter dict_get_def)
  qed
qed

lemma lower_Ornhgvshy: "lower ''Ornhgvshy'' = ''ornhgvshy''"
  by code_simp

lemma lower_Wkh: "lower ''Wkh'' = ''wkh''"
  by code_simp

lemma lower_a: "lower ''a'' = ''a''"
  by code_simp

lemma early_shifts_not_13:
  assumes "k < 13"
  shows "tri (Suc k) mod 26 \<noteq> 13"
proof -
  have "\<forall>k\<in>set [0..<13]. tri (Suc k) mod 26 \<noteq> 13" by code_simp
  with assms show ?thesis by simp
qed

lemma only_13_decodes:
  assumes "r < 26" "r \<noteq> 13"
  shows "substitute (int r) ''ornhgvshy'' \<noteq> ''beautiful''"
proof -
  have o: "CHR ''o'' = DIRECT ! 14" and b: "CHR ''b'' = DIRECT ! 1"
    by (simp_all add: DIRECT_eq)
  have "subst_char (int r) (DIRECT ! 14) = DIRECT ! nat ((int 14 - int r) mod 26)"
    using assms(1) by (intro subst_char_letter) simp_all
  moreover have "nat ((int 14 - int r) mod 26) \<noteq> 1"
  proof -
    have "(14 - int r) mod 26 \<noteq> 1" using assms by presburger
    then show ?thesis by (simp add: nat_eq_iff)
  qed
  moreover have "nat ((int 14 - int r) mod 26) < length DIRECT"
    by (simp add: length_DIRECT nat_less_iff)
  ultimately have "subst_char (int r) (CHR ''o'') \<noteq> CHR ''b''"
    unfolding o b using distinct_DIRECT
    by (simp add: nth_eq_iff_index_eq length_DIRECT)
  then show ?thesis by (simp add: substitute_map)
qed

lemma lower_b: "lower ''b'' = ''b''"
  by code_simp

lemma text_after_eval:
  assumes "n \<le> 53" "int (tri n mod 26) = r" "lower s = ls" "substitute r ls = t"
  shows "st_s (after_passes D s n) = t"
  using assms by (simp add: text_after_passes)

lemma concat_replicate_25: "concat (replicate 25 w) = w @ concat (replicate 24 w)"
proof -
  have "(25::nat) = Suc 24" by simp
  then show ?thesis by (simp only: replicate_Suc concat.simps)
qed

subsection \<open>Maximal runs of non-whitespace characters\<close>

lemma split_ws_acc_run:
  assumes "\<forall>c\<in>set w. \<not> isspace c"
  shows "split_ws_acc acc (w @ v) = split_ws_acc (rev w @ acc) v"
  using assms by (induction w arbitrary: acc) simp_all

lemma get_words_run_first:
  assumes "w \<noteq> []" "\<forall>c\<in>set w. \<not> isspace c" "v = [] \<or> isspace (hd v)"
  shows "get_words (w @ v) = w # get_words v"
proof (cases v)
  case Nil
  with assms show ?thesis
    by (simp add: get_words_split_ws split_ws_def split_ws_acc_word)
next
  case (Cons c v')
  with assms(3) have "isspace c" by simp
  with assms(1,2) Cons show ?thesis
    by (simp add: get_words_split_ws split_ws_def split_ws_acc_run)
qed

lemma get_words_maximal_run:
  assumes "w \<noteq> []" "\<forall>c\<in>set w. \<not> isspace c"
    and "u = [] \<or> isspace (last u)" "v = [] \<or> isspace (hd v)"
  shows "get_words (u @ w @ v) = get_words u @ w # get_words v"
proof (cases u rule: rev_cases)
  case Nil
  with assms show ?thesis by (simp add: get_words_run_first get_words_Nil)
next
  case (snoc u' a)
  with assms(3) have a: "isspace a" by simp
  have "get_words (u @ w @ v) = get_words (u' @ a # (w @ v))" using snoc by simp
  also have "\<dots> = get_words u' @ get_words (w @ v)" using a by (rule get_words_space)
  also have "get_words (w @ v) = w # get_words v"
    using assms(1,2,4) by (rule get_words_run_first)
  also have "get_words u' = get_words u"
    using get_words_space [OF a, of u' "[]"] snoc by (simp add: get_words_Nil)
  finally show ?thesis .
qed

lemma get_words_no_space:
  assumes "w \<in> set (get_words s)" "c \<in> set w"
  shows "\<not> isspace c"
proof -
  from assms have "c \<in> set (concat (get_words s))" by auto
  then have "c \<in> set (filter (\<lambda>c. \<not> isspace c) s)"
    by (simp add: get_words_split_ws split_ws_def concat_split_ws_acc)
  then show ?thesis by simp
qed

subsection \<open>The texts of the first 26 passes\<close>








section \<open>The tokenizer (claim C7)\<close>

text \<open>
  Claim C7. The tokenizer turns \<^verbatim>\<open>"a b\nc"\<close> into the three tokens \<open>a\<close>, \<open>b\<close>, \<open>c\<close> and the
  empty string into no token. On every input no token is empty and no token holds a
  whitespace character; a run of one or more spaces, or of one or more newlines, separates
  the tokens before it from the tokens after it and adds nothing; and the tokens, read in
  their order, spell the characters of the input that are not whitespace, in the order of
  the input: lines in their order, the words of a line from left to right. A word is a
  maximal run of characters that are not whitespace: a non-empty run \<open>w\<close> of such characters
  that stands between \<open>u\<close> and \<open>v\<close>, where \<open>u\<close> is empty or ends in whitespace and \<open>v\<close> is empty
  or starts with whitespace, is one token, after the tokens of \<open>u\<close> and before those of \<open>v\<close>.
\<close>

theorem get_words_tokens:
  "get_words ''a b\<newline>c'' = [''a'', ''b'', ''c'']
   \<and> get_words '''' = []
   \<and> [] \<notin> set (get_words s)
   \<and> get_words (u @ replicate (Suc n) (CHR '' '') @ v) = get_words u @ get_words v
   \<and> get_words (u @ replicate (Suc n) (CHR ''\<newline>'') @ v) = get_words u @ get_words v
   \<and> concat (get_words s) = filter (\<lambda>c. \<not> isspace c) s
   \<and> (\<forall>t\<in>set (get_words s). \<forall>c\<in>set t. \<not> isspace c)
   \<and> (w \<noteq> [] \<and> (\<forall>c\<in>set w. \<not> isspace c)
        \<and> (u = [] \<or> isspace (last u)) \<and> (v = [] \<or> isspace (hd v))
      \<longrightarrow> get_words (u @ w @ v) = get_words u @ w # get_words v)"
proof (intro conjI)
  show "get_words ''a b\<newline>c'' = [''a'', ''b'', ''c'']"
    using get_words_example by simp
  show "get_words '''' = []" by (rule get_words_Nil)
  show "[] \<notin> set (get_words s)"
    by (simp add: get_words_split_ws split_ws_def split_ws_acc_no_empty)
  show "get_words (u @ replicate (Suc n) (CHR '' '') @ v) = get_words u @ get_words v"
    using isspace_blank by (rule get_words_run)
  show "get_words (u @ replicate (Suc n) (CHR ''\<newline>'') @ v) = get_words u @ get_words v"
    using isspace_newline by (intro get_words_run) simp
  show "concat (get_words s) = filter (\<lambda>c. \<not> isspace c) s"
    by (simp add: get_words_split_ws split_ws_def concat_split_ws_acc)
  show "\<forall>t\<in>set (get_words s). \<forall>c\<in>set t. \<not> isspace c"
    using get_words_no_space by blast
  show "w \<noteq> [] \<and> (\<forall>c\<in>set w. \<not> isspace c)
        \<and> (u = [] \<or> isspace (last u)) \<and> (v = [] \<or> isspace (hd v))
      \<longrightarrow> get_words (u @ w @ v) = get_words u @ w # get_words v"
    using get_words_maximal_run by blast
qed

text \<open>The theorem on a text with two blanks, two newlines and words of several letters:
  the run \<open>is\<close> between \<open>ugly.\<close> and \<open>better\<close> is one token.\<close>

theorem get_words_tokens_witness:
  "get_words ''ugly.  is\<newline>\<newline> better'' = [''ugly.'', ''is'', ''better'']
   \<and> get_words ''ugly.  is\<newline>\<newline> better''
       = get_words ''ugly.  '' @ ''is'' # get_words ''\<newline>\<newline> better''"
proof -
  note run = get_words_tokens [where u = "''ugly.  ''" and w = "''is''"
      and v = "''\<newline>\<newline> better''", THEN conjunct2, THEN conjunct2, THEN conjunct2,
      THEN conjunct2, THEN conjunct2, THEN conjunct2, THEN conjunct2, THEN mp]
  have "get_words (''ugly.  '' @ ''is'' @ ''\<newline>\<newline> better'')
      = get_words ''ugly.  '' @ ''is'' # get_words ''\<newline>\<newline> better''"
    by (rule run) (simp add: isspace_def)
  moreover have "get_words ''ugly.  '' = [''ugly.'']"
    by (simp add: get_words_def split_ws_def isspace_def Let_def)
  moreover have "get_words ''\<newline>\<newline> better'' = [''better'']"
    by (simp add: get_words_def split_ws_def isspace_def Let_def)
  ultimately show ?thesis by simp
qed

section \<open>The rotated alphabet (claim C4)\<close>

text \<open>
  Claim C4, amended. For every counter value \<open>s\<close> from 0 to 52 the alphabet built by
  \<^verbatim>\<open>DIRECT[26-s:]+DIRECT[:26-s]\<close> is the 26-letter alphabet with its last \<open>s mod 26\<close>
  letters moved to the front. Up to 26 the slice bound \<open>26 - s\<close> is a position of the
  alphabet; from 27 to 52 it is negative and counts from the end, which gives the same
  rotation again.
\<close>

theorem cypher_is_rotation:
  assumes "0 \<le> s" "s \<le> 52"
  shows "cypher s = rotate_right (nat (s mod 26)) DIRECT"
  using assms by (rule cypher_rotate_right)

text \<open>The theorem at \<open>s = 27\<close>: one letter is moved to the front.\<close>

theorem cypher_is_rotation_witness:
  "cypher 27 = rotate_right 1 DIRECT \<and> cypher 27 = ''zabcdefghijklmnopqrstuvwxy''"
  using cypher_is_rotation [of 27] by (simp add: rotate_right_def DIRECT_eq)

text \<open>
  Claim C4 as stated, for every non-negative \<open>s\<close>, fails at \<open>s = 53\<close>: the bound
  \<open>26 - 53 = -27\<close> lies before the start of the alphabet and is clamped to it, so the
  alphabet built is \<^verbatim>\<open>DIRECT\<close> itself, not \<^verbatim>\<open>DIRECT\<close> rotated by \<open>53 mod 26 = 1\<close>.
\<close>

theorem cypher_53_not_rotated:
  "cypher 53 \<noteq> rotate_right (nat (53 mod 26)) DIRECT"
  by (simp add: cypher_clamped rotate_right_def DIRECT_eq)

section \<open>Round trip (claim C5)\<close>

text \<open>
  Claim C5, amended. For every text \<open>T\<close> and every shift \<open>k\<close> from 0 to 52, the substitution of
  shift \<open>k\<close> followed by the substitution of shift \<open>(26 - k) mod 26\<close> gives \<open>T\<close> back,
  character by character: letters, punctuation and capitals alike.
\<close>

theorem round_trip:
  assumes "0 \<le> k" "k \<le> 52"
  shows "substitute ((26 - k) mod 26) (substitute k T) = T"
proof -
  have "(k + (26 - k) mod 26) mod 26 = (k + (26 - k)) mod 26"
    by (rule mod_add_right_eq)
  then have z: "(k + (26 - k) mod 26) mod 26 = 0" by simp
  have "substitute ((26 - k) mod 26) (substitute k T)
      = substitute ((k + (26 - k) mod 26) mod 26) T"
    using assms by (intro substitute_compose) simp_all
  with z show ?thesis by (simp add: substitute_0)
qed

text \<open>The theorem at \<open>k = 13\<close> on a text with a capital and a full stop.\<close>

theorem round_trip_witness:
  "substitute 13 (substitute 13 ''Ugly.'') = ''Ugly.'' \<and> substitute 13 ''Ugly.'' = ''Utyl.''"
  using round_trip [of 13 "''Ugly.''"] by (simp add: substitute_eval cypher_eval)

text \<open>
  Claim C5 as stated, for every shift, fails at \<open>k = 53\<close>: the substitution of shift 53
  changes nothing, and the substitution of shift \<open>(26 - 53) mod 26 = 25\<close> then turns
  \<open>a\<close> into \<open>b\<close>.
\<close>

theorem round_trip_53_fails:
  "substitute ((26 - 53) mod 26) (substitute 53 ''a'') \<noteq> ''a''"
  by (simp add: substitute_clamped substitute_eval cypher_eval)

section \<open>Additivity (claim C6)\<close>

text \<open>
  Claim C6, amended. For every text \<open>T\<close> and all shifts \<open>a\<close> and \<open>b\<close> from 0 to 52, the
  substitution of shift \<open>a\<close> followed by that of shift \<open>b\<close> is the substitution of shift
  \<open>(a + b) mod 26\<close>, and the two substitutions commute. Under the substitution of any
  shift \<open>c\<close> whatever the text keeps its length and every character that is not one of the
  26 letters of \<^verbatim>\<open>DIRECT\<close> stays as it is.
\<close>

theorem shifts_add:
  assumes "0 \<le> a" "a \<le> 52" "0 \<le> b" "b \<le> 52"
  shows "substitute b (substitute a T) = substitute ((a + b) mod 26) T
    \<and> substitute b (substitute a T) = substitute a (substitute b T)
    \<and> length (substitute c T) = length T
    \<and> (\<forall>i<length T. T ! i \<notin> set DIRECT \<longrightarrow> substitute c T ! i = T ! i)"
proof (intro conjI)
  show ab: "substitute b (substitute a T) = substitute ((a + b) mod 26) T"
    using assms by (rule substitute_compose)
  have "substitute a (substitute b T) = substitute ((b + a) mod 26) T"
    using assms by (intro substitute_compose)
  with ab show "substitute b (substitute a T) = substitute a (substitute b T)"
    by (simp add: add.commute)
  show "length (substitute c T) = length T" by (simp add: substitute_map)
  show "\<forall>i<length T. T ! i \<notin> set DIRECT \<longrightarrow> substitute c T ! i = T ! i"
    by (simp add: substitute_map subst_char_other)
qed

text \<open>The theorem at \<open>a = 20\<close>, \<open>b = 19\<close>: together they are the shift 13, and the comma at
  index 1 passes through the substitution of shift 7.\<close>

theorem shifts_add_witness:
  "substitute 19 (substitute 20 ''b, c!'') = substitute 13 ''b, c!''
   \<and> substitute 13 ''b, c!'' = ''o, p!''
   \<and> substitute 7 ''b, c!'' ! 1 = CHR '',''"
proof -
  have th: "substitute 19 (substitute 20 ''b, c!'') = substitute ((20 + 19) mod 26) ''b, c!''
    \<and> substitute 19 (substitute 20 ''b, c!'') = substitute 20 (substitute 19 ''b, c!'')
    \<and> length (substitute 7 ''b, c!'') = length ''b, c!''
    \<and> (\<forall>i<length ''b, c!''. ''b, c!'' ! i \<notin> set DIRECT
          \<longrightarrow> substitute 7 ''b, c!'' ! i = ''b, c!'' ! i)"
    by (rule shifts_add) simp_all
  have comma: "''b, c!'' ! 1 \<notin> set DIRECT" "1 < length ''b, c!''"
    by (simp_all add: DIRECT_eq)
  from th have "substitute 19 (substitute 20 ''b, c!'') = substitute 13 ''b, c!''" by simp
  moreover have "substitute 13 ''b, c!'' = ''o, p!''"
    by (simp add: substitute_eval cypher_eval)
  moreover from th comma have "substitute 7 ''b, c!'' ! 1 = ''b, c!'' ! 1" by blast
  ultimately show ?thesis by simp
qed

text \<open>
  Claim C6 as stated, for all shifts, fails at \<open>a = 53\<close>, \<open>b = 0\<close>: neither substitution
  changes the text, while the substitution of shift \<open>53 mod 26 = 1\<close> turns \<open>a\<close> into \<open>z\<close>.
\<close>

theorem shifts_add_53_fails:
  "substitute 0 (substitute 53 ''a'') \<noteq> substitute ((53 + 0) mod 26) ''a''"
  by (simp add: substitute_clamped substitute_0 substitute_eval cypher_eval)

section \<open>Counting by truth value (claim C10)\<close>

text \<open>
  Claim C10. A token adds to the match count only when the dictionary holds a truthy
  value under it. A token whose key is present with a falsy value leaves the counter as
  it was; whenever the counter changes, the key is present with a truthy value; and the
  count of a token list is the number of its tokens with a truthy value. The empty
  string, 0, \<^verbatim>\<open>False\<close> and \<^verbatim>\<open>None\<close> are falsy.
\<close>

theorem match_needs_truthy_value:
  "(dictionary word = Some v \<and> \<not> truthy v \<longrightarrow> count_word dictionary word matches = matches)
   \<and> (count_word dictionary word matches \<noteq> matches
        \<longrightarrow> (\<exists>v'. dictionary word = Some v' \<and> truthy v'))
   \<and> count_matches dictionary ws
       = int (length (filter (\<lambda>w. case dictionary w of Some v' \<Rightarrow> truthy v' | None \<Rightarrow> False) ws))
   \<and> \<not> truthy (JStr '''') \<and> \<not> truthy (JInt 0) \<and> \<not> truthy (JBool False) \<and> \<not> truthy JNull"
proof -
  have "truthy (dict_get dictionary w JNull)
      = (case dictionary w of Some v' \<Rightarrow> truthy v' | None \<Rightarrow> False)" for w
    by (simp add: dict_get_def split: option.splits)
  then show ?thesis
    by (auto simp: count_word_def count_matches_filter split: option.splits)
qed

text \<open>The theorem on dictionaries that hold \<open>ugly\<close> with a falsy value: the token \<open>ugly\<close> is
  not counted, the token \<open>flat\<close> with the value 1 is, and the absent token \<open>dense\<close> is not.\<close>

theorem match_needs_truthy_value_witness:
  "count_word [''ugly'' \<mapsto> JInt 0] ''ugly'' 7 = 7
   \<and> count_matches [''ugly'' \<mapsto> JStr '''', ''flat'' \<mapsto> JInt 1] [''flat'', ''ugly'', ''dense''] = 1"
  using match_needs_truthy_value [of "[''ugly'' \<mapsto> JInt 0]" "''ugly''" "JInt 0" 7 "[]"]
    match_needs_truthy_value [of "[''ugly'' \<mapsto> JStr '''', ''flat'' \<mapsto> JInt 1]" "''ugly''" "JStr ''''" 0
      "[''flat'', ''ugly'', ''dense'']"]
  by simp

section \<open>The working text from pass to pass (claims C2 and C9)\<close>

text \<open>
  Claim C2, amended. Every pass applies its substitution to the working text the pass
  before has left, never to the original: the text after \<open>n + 1\<close> passes is the
  substitution of the counter after \<open>n\<close> passes applied to the text after \<open>n\<close> passes. The
  first pass, with counter 0, changes nothing, so after one pass the working text is still
  the lowercased ciphertext; and after any number of passes the working text is the
  lowercased ciphertext rotated by some amount between 0 and 25.
\<close>

theorem passes_compose:
  "st_s (after_passes D s (Suc n))
     = substitute (st_shift (after_passes D s n)) (st_s (after_passes D s n))
   \<and> st_s (after_passes D s 1) = lower s
   \<and> (\<exists>r<26. st_s (after_passes D s n) = substitute (int r) (lower s))"
proof (intro conjI)
  show "st_s (after_passes D s (Suc n))
     = substitute (st_shift (after_passes D s n)) (st_s (after_passes D s n))"
    by (simp add: after_passes_Suc loop_body_simps)
  have "st_s (after_passes D s 1) = substitute (int (tri 1 mod 26)) (lower s)"
    by (rule text_after_passes) simp
  then show "st_s (after_passes D s 1) = lower s"
    by (simp add: tri_def substitute_0)
  from text_is_rotation [of D s n] obtain k
    where "st_s (after_passes D s n) = substitute (int (tri k mod 26)) (lower s)" ..
  moreover have "tri k mod 26 < 26" by simp
  ultimately show "\<exists>r<26. st_s (after_passes D s n) = substitute (int r) (lower s)"
    by blast
qed

text \<open>
  Claim C2 as stated fails on the ciphertext \<open>b\<close> with an empty dictionary, a run that never
  leaves the loop. After one pass the text is not the original rotated by 1, after two
  passes it is not the original rotated by 2, and the third pass does not move the text of
  the second pass by one position.
\<close>

theorem rotation_does_not_advance_by_one:
  "decypher Map.empty ''b'' = None
   \<and> st_s (after_passes Map.empty ''b'' 1) \<noteq> substitute 1 (lower ''b'')
   \<and> st_s (after_passes Map.empty ''b'' 2) \<noteq> substitute 2 (lower ''b'')
   \<and> st_s (after_passes Map.empty ''b'' 3) \<noteq> substitute 1 (st_s (after_passes Map.empty ''b'' 2))"
proof -
  have "st_s (after_passes Map.empty ''b'' 1) = ''b''"
    by (rule text_after_eval [where r = 0 and ls = "''b''"])
      (simp_all add: tri_def lower_b substitute_0)
  moreover have "st_s (after_passes Map.empty ''b'' 2) = ''a''"
    by (rule text_after_eval [where r = 1 and ls = "''b''"])
      (simp_all add: tri_def lower_b substitute_eval cypher_eval)
  moreover have "st_s (after_passes Map.empty ''b'' 3) = ''y''"
    by (rule text_after_eval [where r = 3 and ls = "''b''"])
      (simp_all add: tri_def lower_b substitute_eval cypher_eval)
  ultimately show ?thesis
    by (simp add: empty_dictionary_never_ends lower_b substitute_eval cypher_eval)
qed

text \<open>
  Claim C9, amended. After \<open>n\<close> passes, for \<open>n\<close> up to 53, the working text is the lowercased
  ciphertext under the substitution of shift \<open>n (n - 1) / 2 mod 26\<close>; after any number of
  passes it is the lowercased ciphertext under the substitution of a triangular number
  modulo 26. The pass made at counter value \<open>n\<close> applies the substitution of shift \<open>n\<close>, and
  the first pass, at counter 0, leaves the text as it is.
\<close>

theorem triangular_rotation:
  "(n \<le> 53 \<longrightarrow> st_s (after_passes D s n) = substitute (int (tri n mod 26)) (lower s))
   \<and> (\<exists>k. st_s (after_passes D s n) = substitute (int (tri k mod 26)) (lower s))
   \<and> st_s (loop_body D (after_passes D s n)) = substitute (int n) (st_s (after_passes D s n))
   \<and> substitute (st_shift (init_state s)) (st_s (init_state s)) = st_s (init_state s)"
  by (simp add: text_after_passes text_is_rotation loop_body_simps shift_after_passes
      init_state_def substitute_0)

text \<open>The theorem at \<open>n = 3\<close> and \<open>n = 4\<close>: the shifts are 3 and 6.\<close>

theorem triangular_rotation_witness:
  "st_s (after_passes Map.empty ''Wkh'' 3) = ''the''
   \<and> st_s (after_passes Map.empty ''Wkh'' 4) = ''qeb''"
proof -
  have t: "int (tri 3 mod 26) = 3" "int (tri 4 mod 26) = 6"
    by (simp_all add: tri_def)
  have "st_s (after_passes Map.empty ''Wkh'' 3) = substitute (int (tri 3 mod 26)) (lower ''Wkh'')"
    using triangular_rotation [of 3 Map.empty "''Wkh''", THEN conjunct1, THEN mp] by simp
  moreover
  have "st_s (after_passes Map.empty ''Wkh'' 4) = substitute (int (tri 4 mod 26)) (lower ''Wkh'')"
    using triangular_rotation [of 4 Map.empty "''Wkh''", THEN conjunct1, THEN mp] by simp
  ultimately show ?thesis
    unfolding t lower_Wkh by (simp add: substitute_eval cypher_eval)
qed

text \<open>
  Claim C9 as stated, for every \<open>n\<close>, fails at \<open>n = 54\<close> on the ciphertext \<open>a\<close> with an empty
  dictionary, a run that never leaves the loop: the pass at counter 53 changes nothing, so
  the text is still the one after 53 passes, \<open>a\<close>, while \<open>54 \<cdot> 53 / 2 mod 26 = 1\<close>.
\<close>

theorem triangular_rotation_stops_at_53:
  "decypher Map.empty ''a'' = None
   \<and> st_s (after_passes Map.empty ''a'' 54) \<noteq> substitute (int (tri 54 mod 26)) (lower ''a'')"
proof -
  have "st_s (after_passes Map.empty ''a'' 54) = ''a''"
    by (simp add: text_after_53 lower_a)
  moreover have "int (tri 54 mod 26) = 1" by (simp add: tri_def)
  moreover have "substitute 1 ''a'' = ''z''" by (simp add: substitute_eval cypher_eval)
  ultimately show ?thesis
    by (simp add: empty_dictionary_never_ends lower_a)
qed

section \<open>Runs that never end (claim C3)\<close>




section \<open>The reported shift (claims C1 and C8)\<close>

text \<open>
  Claim C1 says that the number printed after \<^verbatim>\<open>Shift:\<close> is the rotation, modulo 26, that
  leads from the lowercased ciphertext to the printed text. The ciphertext made of 25
  tokens \<open>Wkh\<close>, with a dictionary that holds \<open>the\<close>, is decoded in the third pass: the run
  prints the shift 2 and 25 tokens \<open>the\<close>. The printed text is the lowercased ciphertext
  under the substitution of shift 3; under that of shift 2 it is another text.
\<close>

theorem reported_shift_is_the_counter:
  "decypher [''the'' \<mapsto> JInt 1] (concat (replicate 25 ''Wkh ''))
     = Some (2, concat (replicate 25 ''the ''))
   \<and> substitute 3 (lower (concat (replicate 25 ''Wkh ''))) = concat (replicate 25 ''the '')
   \<and> substitute 2 (lower (concat (replicate 25 ''Wkh ''))) \<noteq> concat (replicate 25 ''the '')"
proof (intro conjI)
  let ?D = "[''the'' \<mapsto> JInt 1]"
  have s0: "substitute 0 ''wkh'' = ''wkh''" by (rule substitute_0)
  have s1: "substitute 1 ''wkh'' = ''vjg''" by (simp add: substitute_eval cypher_eval)
  have s3: "substitute 3 ''wkh'' = ''the''" by (simp add: substitute_eval cypher_eval)
  have t: "int (tri (Suc 0) mod 26) = 0" "int (tri (Suc 1) mod 26) = 1"
    "int (tri (Suc 2) mod 26) = 3"
    by (simp_all add: tri_def)
  have before: "\<forall>k<2. \<not> truthy (dict_get ?D (substitute (int (tri (Suc k) mod 26)) ''wkh'') JNull)"
  proof (intro allI impI)
    fix k :: nat assume "k < 2"
    then consider "k = 0" | "k = 1" by linarith
    then show "\<not> truthy (dict_get ?D (substitute (int (tri (Suc k) mod 26)) ''wkh'') JNull)"
      by cases (simp_all only: t s0 s1, simp_all add: dict_get_def)
  qed
  have hit: "truthy (dict_get ?D (substitute (int (tri (Suc 2) mod 26)) ''wkh'') JNull)"
    unfolding t s3 by (simp add: dict_get_def)
  have "decypher ?D (concat (replicate 25 (''Wkh'' @ '' '')))
    = Some (int 2, concat (replicate 25 (substitute (int (tri (Suc 2) mod 26)) ''wkh'' @ '' '')))"
    using lower_Wkh _ _ _ before hit
    by (rule run_on_repeated_token) (simp_all add: isspace_def)
  then show "decypher ?D (concat (replicate 25 ''Wkh '')) = Some (2, concat (replicate 25 ''the ''))"
    unfolding t s3 by simp
  have low: "lower (concat (replicate 25 ''Wkh '')) = concat (replicate 25 ''wkh '')"
    using lower_repeat [of 25 "''Wkh ''"] lower_blank [of "''Wkh''"] by (simp add: lower_Wkh)
  show "substitute 3 (lower (concat (replicate 25 ''Wkh ''))) = concat (replicate 25 ''the '')"
    unfolding low substitute_repeat by (simp add: substitute_eval cypher_eval)
  have "substitute 2 (lower (concat (replicate 25 ''Wkh ''))) = concat (replicate 25 ''uif '')"
    unfolding low substitute_repeat by (simp add: substitute_eval cypher_eval)
  then show "substitute 2 (lower (concat (replicate 25 ''Wkh ''))) \<noteq> concat (replicate 25 ''the '')"
    by (simp add: concat_replicate_25)
qed

text \<open>
  Claim C8, amended. On a ciphertext of 25 tokens \<open>Ornhgvshy\<close> and a dictionary whose only
  entry is \<open>beautiful\<close>, the run terminates and prints the shift 13 and 25 tokens
  \<open>beautiful\<close>; the substitution of shift 13 turns the lowercased \<open>Ornhgvshy\<close> into
  \<open>beautiful\<close>.
\<close>

theorem beautiful_needs_25_tokens:
  "decypher [''beautiful'' \<mapsto> JInt 1] (concat (replicate 25 ''Ornhgvshy ''))
     = Some (13, concat (replicate 25 ''beautiful ''))
   \<and> substitute 13 (lower ''Ornhgvshy'') = ''beautiful''"
proof -
  let ?D = "[''beautiful'' \<mapsto> JInt 1]"
  have dec: "substitute 13 ''ornhgvshy'' = ''beautiful''"
    by (simp add: substitute_eval cypher_eval)
  have t14: "int (tri (Suc 13) mod 26) = 13" by (simp add: tri_def)
  have before: "\<forall>k<13. \<not> truthy (dict_get ?D (substitute (int (tri (Suc k) mod 26)) ''ornhgvshy'') JNull)"
  proof (intro allI impI)
    fix k :: nat assume "k < 13"
    then have "tri (Suc k) mod 26 \<noteq> 13" by (rule early_shifts_not_13)
    then have "substitute (int (tri (Suc k) mod 26)) ''ornhgvshy'' \<noteq> ''beautiful''"
      by (intro only_13_decodes) simp_all
    then show "\<not> truthy (dict_get ?D (substitute (int (tri (Suc k) mod 26)) ''ornhgvshy'') JNull)"
      by (simp add: dict_get_def)
  qed
  have hit: "truthy (dict_get ?D (substitute (int (tri (Suc 13) mod 26)) ''ornhgvshy'') JNull)"
    unfolding t14 dec by (simp add: dict_get_def)
  have "decypher ?D (concat (replicate 25 (''Ornhgvshy'' @ '' '')))
    = Some (int 13, concat (replicate 25 (substitute (int (tri (Suc 13) mod 26)) ''ornhgvshy'' @ '' '')))"
    using lower_Ornhgvshy _ _ _ before hit
    by (rule run_on_repeated_token) (simp_all add: isspace_def)
  then show ?thesis
    unfolding t14 dec by (simp add: lower_Ornhgvshy dec)
qed

text \<open>
  Claim C8 as stated fails: on the single token \<open>Ornhgvshy\<close> no pass can count 25
  matches, and the run never leaves the loop.
\<close>

theorem single_token_never_ends:
  "decypher [''beautiful'' \<mapsto> JInt 1] ''Ornhgvshy'' = None"
  by (rule short_text_never_ends) simp

end
